theory Spec2Isabelle
  imports Main "HOL-Library.Sublist"
begin

section \<open>The token-refresh coordinator: configureRefreshFetch\<close>

text \<open>
  The source is one closure over a single mutable variable,
  \<^verbatim>\<open>let refreshingTokenPromise: Promise<void> | null = null\<close>, and an async function of
  \<^verbatim>\<open>(url, options)\<close>. JavaScript runs it on one thread: an invocation runs without
  interruption up to its next \<^verbatim>\<open>await\<close>, and continues in a later turn once the awaited
  promise has settled. The model is therefore a transition system whose steps are exactly
  the stretches of code between two suspension points:
  \<^item> \<open>Invoke u o\<close>: a caller calls the wrapped function (lines 17-31, up to the first await);
  \<^item> \<open>FetchSettles cid out\<close>: the promise returned by the transport for invocation \<open>cid\<close>
    settles, and the invocation continues from the await on it; if it calls
    \<^verbatim>\<open>refreshToken()\<close> in this step, the call returns a promise;
  \<^item> \<open>RefreshTokenThrows cid error x\<close>: the same continuation for a transport promise
    that rejects with \<open>error\<close>, when the call of \<^verbatim>\<open>refreshToken()\<close> it makes throws \<open>x\<close>
    instead of returning a promise (a function that throws before it returns, or that
    returns a value without \<^verbatim>\<open>then\<close>, on which line 39 throws a \<^verbatim>\<open>TypeError\<close>);
  \<^item> \<open>RefreshTokenSettles p r\<close>: the promise returned by \<^verbatim>\<open>refreshToken()\<close> settles and the
    \<^verbatim>\<open>.then\<close> or \<^verbatim>\<open>.catch\<close> callback of lines 39-46 runs;
  \<^item> \<open>Resume cid\<close>: invocation \<open>cid\<close> continues from its \<^verbatim>\<open>await refreshingTokenPromise\<close>,
    which is possible only once that promise has settled.
  The transport, \<^verbatim>\<open>refreshToken\<close> and the scheduler are the environment: any order of these
  events is allowed, which includes every order the JavaScript job queue can produce.
  \<^verbatim>\<open>shouldRefreshToken\<close> is a pure predicate \<open>srt\<close>. The transport is taken to return a
  promise; one that throws instead lands in the same \<^verbatim>\<open>catch\<close> clauses, and is the schedule
  in which its \<open>FetchSettles\<close> event comes next. \<open>options\<close> is the argument after the default
  \<^verbatim>\<open>{}\<close> has been applied.
\<close>

subsection \<open>Data\<close>

text \<open>How a promise of the transport, or of the wrapped function, settles.\<close>

datatype ('v, 'e) outcome = Resolved 'v | Rejected 'e

text \<open>
  The state of a promise constructed at line 37. It is made pending and settles when
  \<^verbatim>\<open>resolve\<close> or \<^verbatim>\<open>reject\<close> is called (lines 41 and 45), or it is rejected from the start,
  when its executor throws.
\<close>

datatype 'e promise_state = Pending | Fulfilled | RejectedWith 'e

text \<open>
  Where an invocation is suspended. \<open>AwaitRefresh p error\<close> and \<open>AwaitRetry error\<close> keep the
  \<^verbatim>\<open>error\<close> bound by the catch clause of line 32; \<open>p\<close> is the promise that the expression
  \<^verbatim>\<open>refreshingTokenPromise\<close> evaluated to when the await started.
\<close>

datatype ('v, 'e) point =
    AwaitFetch                     \<comment> \<open>line 31\<close>
  | AwaitRefresh nat 'e            \<comment> \<open>line 51\<close>
  | AwaitRetry 'e                  \<comment> \<open>line 53\<close>
  | BystanderAwaitRefresh nat      \<comment> \<open>line 21\<close>
  | BystanderAwaitFetchTry         \<comment> \<open>line 22\<close>
  | BystanderAwaitFetchCatch       \<comment> \<open>line 26\<close>
  | Settled "('v, 'e) outcome"     \<comment> \<open>the promise of the wrapped function has settled\<close>

text \<open>
  One invocation of the wrapped function. \<open>fetchCalls\<close> and \<open>shouldRefreshTokenCalls\<close> record
  the arguments of each call this invocation made to \<^verbatim>\<open>fetch\<close> and to \<^verbatim>\<open>shouldRefreshToken\<close>,
  as a mock's \<^verbatim>\<open>mock.calls\<close> does in the test suite.
\<close>

record ('u, 'o, 'v, 'e) call =
  url :: 'u
  options :: 'o
  point :: "('v, 'e) point"
  fetchCalls :: "('u \<times> 'o) list"
  shouldRefreshTokenCalls :: "'e list"

text \<open>
  One entry per call of \<^verbatim>\<open>refreshToken()\<close>, which is also the promise built around it at
  line 37: the invocation that made the call, and the state of the promise.
\<close>

record 'e refresh =
  invokedBy :: nat
  promiseState :: "'e promise_state"

text \<open>
  The coordinator: the variable \<open>refreshingTokenPromise\<close> (\<open>None\<close> is \<^verbatim>\<open>null\<close>, \<open>Some p\<close> the
  promise number \<open>p\<close> of \<open>refreshes\<close>), every promise made so far, and every invocation
  so far, numbered in the order of the calls.
\<close>

record ('u, 'o, 'v, 'e) state =
  refreshingTokenPromise :: "nat option"
  refreshes :: "'e refresh list"
  calls :: "('u, 'o, 'v, 'e) call list"

datatype ('u, 'o, 'v, 'e) event =
    Invoke 'u 'o
  | FetchSettles nat "('v, 'e) outcome"
  | RefreshTokenThrows nat 'e 'e
  | RefreshTokenSettles nat "'e option"
  | Resume nat

definition init :: "('u, 'o, 'v, 'e) state" where
  "init = \<lparr>refreshingTokenPromise = None, refreshes = [], calls = []\<rparr>"

subsection \<open>Transitions\<close>

text \<open>\<^verbatim>\<open>fetch(url, options)\<close>: the invocation calls the transport with its own arguments.\<close>

definition issueFetch :: "('u, 'o, 'v, 'e) call \<Rightarrow> ('u, 'o, 'v, 'e) call" where
  "issueFetch c = c\<lparr>fetchCalls := fetchCalls c @ [(url c, options c)]\<rparr>"

definition setCall ::
  "nat \<Rightarrow> ('u, 'o, 'v, 'e) call \<Rightarrow> ('u, 'o, 'v, 'e) state \<Rightarrow> ('u, 'o, 'v, 'e) state" where
  "setCall cid c s = s\<lparr>calls := (calls s)[cid := c]\<rparr>"

text \<open>
  Lines 17-31 up to the first await: with a refresh in progress the invocation awaits it
  (line 21) and has called nothing yet; otherwise it calls the transport (line 31).
\<close>

definition invoke ::
  "'u \<Rightarrow> 'o \<Rightarrow> ('u, 'o, 'v, 'e) state \<Rightarrow> ('u, 'o, 'v, 'e) state" where
  "invoke u opts s =
     (case refreshingTokenPromise s of
        Some p \<Rightarrow>
          s\<lparr>calls := calls s @
              [\<lparr>url = u, options = opts, point = BystanderAwaitRefresh p,
                fetchCalls = [], shouldRefreshTokenCalls = []\<rparr>]\<rparr>
      | None \<Rightarrow>
          s\<lparr>calls := calls s @
              [issueFetch \<lparr>url = u, options = opts, point = AwaitFetch,
                fetchCalls = [], shouldRefreshTokenCalls = []\<rparr>]\<rparr>)"

text \<open>
  The continuation after an awaited transport call.
  \<^item> At line 31: success returns; a failure is classified (line 34); an auth failure
    starts a refresh when none is in progress (lines 36-48: \<^verbatim>\<open>refreshToken()\<close> is called
    and the new promise is stored in one go) and awaits the stored promise (line 51);
    any other failure is re-thrown (line 60). \<open>thrown\<close> is what the call of
    \<^verbatim>\<open>refreshToken()\<close> at line 38 does, if the step makes it: \<open>None\<close> when it returns a
    promise, to which lines 39-46 attach their callbacks, so the new promise is pending;
    \<open>Some x\<close> when it throws \<open>x\<close>, so the executor of line 37 throws, no callback is
    attached, and the promise that line 37 stores is already rejected with \<open>x\<close>.
  \<^item> At line 53 the await is inside the \<^verbatim>\<open>try\<close> of line 50, so a failure of the retry lands
    in the \<^verbatim>\<open>catch\<close> of line 54, which throws the original \<^verbatim>\<open>error\<close> (line 56).
  \<^item> At line 22 the await is inside the \<^verbatim>\<open>try\<close> of line 20, so a failure lands in the
    \<^verbatim>\<open>catch\<close> of line 23, which calls the transport again (line 26).
  \<^item> At line 26 the outcome of the transport is the outcome of the invocation.
\<close>

definition fetchSettled ::
  "('e \<Rightarrow> bool) \<Rightarrow> 'e option \<Rightarrow> nat \<Rightarrow> ('v, 'e) outcome \<Rightarrow> ('u, 'o, 'v, 'e) state
     \<Rightarrow> ('u, 'o, 'v, 'e) state option" where
  "fetchSettled srt thrown cid out s =
     (if cid < length (calls s) then
        let c = calls s ! cid in
        (case point c of
           AwaitFetch \<Rightarrow>
             (case out of
                Resolved v \<Rightarrow> Some (setCall cid (c\<lparr>point := Settled (Resolved v)\<rparr>) s)
              | Rejected error \<Rightarrow>
                  let c1 = c\<lparr>shouldRefreshTokenCalls := shouldRefreshTokenCalls c @ [error]\<rparr> in
                  if srt error then
                    (case refreshingTokenPromise s of
                       None \<Rightarrow>
                         let p = length (refreshes s) in
                         Some (setCall cid (c1\<lparr>point := AwaitRefresh p error\<rparr>)
                           (s\<lparr>refreshingTokenPromise := Some p,
                              refreshes := refreshes s @
                                [\<lparr>invokedBy = cid,
                                  promiseState =
                                    (case thrown of
                                       None \<Rightarrow> Pending
                                     | Some x \<Rightarrow> RejectedWith x)\<rparr>]\<rparr>))
                     | Some p \<Rightarrow>
                         Some (setCall cid (c1\<lparr>point := AwaitRefresh p error\<rparr>) s))
                  else Some (setCall cid (c1\<lparr>point := Settled (Rejected error)\<rparr>) s))
         | AwaitRetry error \<Rightarrow>
             (case out of
                Resolved v \<Rightarrow> Some (setCall cid (c\<lparr>point := Settled (Resolved v)\<rparr>) s)
              | Rejected _ \<Rightarrow> Some (setCall cid (c\<lparr>point := Settled (Rejected error)\<rparr>) s))
         | BystanderAwaitFetchTry \<Rightarrow>
             (case out of
                Resolved v \<Rightarrow> Some (setCall cid (c\<lparr>point := Settled (Resolved v)\<rparr>) s)
              | Rejected _ \<Rightarrow>
                  Some (setCall cid (issueFetch (c\<lparr>point := BystanderAwaitFetchCatch\<rparr>)) s))
         | BystanderAwaitFetchCatch \<Rightarrow> Some (setCall cid (c\<lparr>point := Settled out\<rparr>) s)
         | _ \<Rightarrow> None)
      else None)"

text \<open>
  Lines 39-46: when the promise of \<^verbatim>\<open>refreshToken()\<close> settles, the callback sets the
  variable to \<^verbatim>\<open>null\<close>, whatever it holds, and settles the promise of line 37 the same way.
  Only a pending promise of line 37 has these callbacks; nothing else in the source
  assigns \<^verbatim>\<open>null\<close> to the variable.
\<close>

definition refreshTokenSettled ::
  "nat \<Rightarrow> 'e option \<Rightarrow> ('u, 'o, 'v, 'e) state \<Rightarrow> ('u, 'o, 'v, 'e) state option" where
  "refreshTokenSettled p r s =
     (if p < length (refreshes s) \<and> promiseState (refreshes s ! p) = Pending then
        Some (s\<lparr>refreshingTokenPromise := None,
                refreshes := (refreshes s)
                  [p := (refreshes s ! p)
                     \<lparr>promiseState := (case r of None \<Rightarrow> Fulfilled | Some e \<Rightarrow> RejectedWith e)\<rparr>]\<rparr>)
      else None)"

text \<open>
  The continuation after \<^verbatim>\<open>await refreshingTokenPromise\<close>.
  \<^item> At line 51: on success the transport is called again (line 53); on failure the
    \<^verbatim>\<open>catch\<close> of line 54 throws the original \<^verbatim>\<open>error\<close>.
  \<^item> At line 21: on success the transport is called inside the \<^verbatim>\<open>try\<close> (line 22); on failure
    it is called from the \<^verbatim>\<open>catch\<close> (line 26).
\<close>

definition resume ::
  "nat \<Rightarrow> ('u, 'o, 'v, 'e) state \<Rightarrow> ('u, 'o, 'v, 'e) state option" where
  "resume cid s =
     (if cid < length (calls s) then
        let c = calls s ! cid in
        (case point c of
           AwaitRefresh p error \<Rightarrow>
             (if p < length (refreshes s) then
                (case promiseState (refreshes s ! p) of
                   Pending \<Rightarrow> None
                 | Fulfilled \<Rightarrow> Some (setCall cid (issueFetch (c\<lparr>point := AwaitRetry error\<rparr>)) s)
                 | RejectedWith _ \<Rightarrow> Some (setCall cid (c\<lparr>point := Settled (Rejected error)\<rparr>) s))
              else None)
         | BystanderAwaitRefresh p \<Rightarrow>
             (if p < length (refreshes s) then
                (case promiseState (refreshes s ! p) of
                   Pending \<Rightarrow> None
                 | Fulfilled \<Rightarrow>
                     Some (setCall cid (issueFetch (c\<lparr>point := BystanderAwaitFetchTry\<rparr>)) s)
                 | RejectedWith _ \<Rightarrow>
                     Some (setCall cid (issueFetch (c\<lparr>point := BystanderAwaitFetchCatch\<rparr>)) s))
              else None)
         | _ \<Rightarrow> None)
      else None)"

text \<open>
  The step calls \<^verbatim>\<open>refreshToken()\<close>: the invocation is at line 31, the failure is an auth
  failure and the variable is \<^verbatim>\<open>null\<close> (lines 34 and 36).
\<close>

definition callsRefreshToken ::
  "('e \<Rightarrow> bool) \<Rightarrow> nat \<Rightarrow> 'e \<Rightarrow> ('u, 'o, 'v, 'e) state \<Rightarrow> bool" where
  "callsRefreshToken srt cid error s \<longleftrightarrow>
     cid < length (calls s) \<and> point (calls s ! cid) = AwaitFetch \<and> srt error \<and>
     refreshingTokenPromise s = None"

text \<open>One step; \<open>None\<close> when the event cannot happen in this state.\<close>

fun step ::
  "('e \<Rightarrow> bool) \<Rightarrow> ('u, 'o, 'v, 'e) event \<Rightarrow> ('u, 'o, 'v, 'e) state
     \<Rightarrow> ('u, 'o, 'v, 'e) state option" where
  "step srt (Invoke u opts) s = Some (invoke u opts s)"
| "step srt (FetchSettles cid out) s = fetchSettled srt None cid out s"
| "step srt (RefreshTokenThrows cid error x) s =
     (if callsRefreshToken srt cid error s then fetchSettled srt (Some x) cid (Rejected error) s
      else None)"
| "step srt (RefreshTokenSettles p r) s = refreshTokenSettled p r s"
| "step srt (Resume cid) s = resume cid s"

text \<open>A schedule: the events in the order they happen.\<close>

fun run ::
  "('e \<Rightarrow> bool) \<Rightarrow> ('u, 'o, 'v, 'e) event list \<Rightarrow> ('u, 'o, 'v, 'e) state
     \<Rightarrow> ('u, 'o, 'v, 'e) state option" where
  "run srt [] s = Some s"
| "run srt (e # es) s = (case step srt e s of None \<Rightarrow> None | Some s' \<Rightarrow> run srt es s')"

text \<open>The invocation an event continues, if any.\<close>

fun target :: "('u, 'o, 'v, 'e) event \<Rightarrow> nat option" where
  "target (Invoke u opts) = None"
| "target (FetchSettles cid out) = Some cid"
| "target (RefreshTokenThrows cid error x) = Some cid"
| "target (RefreshTokenSettles p r) = None"
| "target (Resume cid) = Some cid"

text \<open>The promise an invocation is waiting for at \<^verbatim>\<open>await refreshingTokenPromise\<close>.\<close>

fun awaitedRefresh :: "('u, 'o, 'v, 'e) call \<Rightarrow> nat option" where
  "awaitedRefresh c =
     (case point c of
        AwaitRefresh p error \<Rightarrow> Some p
      | BystanderAwaitRefresh p \<Rightarrow> Some p
      | _ \<Rightarrow> None)"

section \<open>fetchJSON\<close>

subsection \<open>Option objects and lodash's merge\<close>

text \<open>
  A JavaScript value as \<^verbatim>\<open>merge\<close> sees it: \<^verbatim>\<open>undefined\<close>, a string, a plain object (its
  properties in insertion order), or any other value (\<^verbatim>\<open>null\<close>, a number, an array, a
  \<^verbatim>\<open>Headers\<close> instance, a \<^verbatim>\<open>Blob\<close>), which \<^verbatim>\<open>merge\<close> takes over as a whole.
\<close>

datatype 'a jsvalue =
    JUndefined
  | JString string
  | JOther 'a
  | JObject "(string \<times> 'a jsvalue) list"

type_synonym 'a jsobject = "(string \<times> 'a jsvalue) list"

text \<open>\<^verbatim>\<open>object[key]\<close>: an absent property reads as \<^verbatim>\<open>undefined\<close>.\<close>

definition property :: "'a jsobject \<Rightarrow> string \<Rightarrow> 'a jsvalue" where
  "property object key = (case map_of object key of None \<Rightarrow> JUndefined | Some v \<Rightarrow> v)"

text \<open>\<^verbatim>\<open>object[key] = value\<close>: an existing property keeps its place, a new one goes last.\<close>

fun assignValue :: "string \<Rightarrow> 'a jsvalue \<Rightarrow> 'a jsobject \<Rightarrow> 'a jsobject" where
  "assignValue key v [] = [(key, v)]"
| "assignValue key v ((k, w) # object) =
     (if k = key then (key, v) # object else (k, w) # assignValue key v object)"

text \<open>
  Modelled from the documentation of lodash, which is a dependency and not part of the
  repository: \<^verbatim>\<open>merge(object, source)\<close> goes through the properties of \<^verbatim>\<open>source\<close>; a plain
  object is merged recursively into the destination's value (into a new empty object when
  that value is not an object), a property that is \<^verbatim>\<open>undefined\<close> is skipped when the
  destination has the key, and any other value is assigned. The destination of the one
  call in \<^verbatim>\<open>fetchJSON\<close> is a fresh literal holding plain objects and a string only.
\<close>

function merge :: "'a jsobject \<Rightarrow> 'a jsobject \<Rightarrow> 'a jsobject" where
  "merge object [] = object"
| "merge object ((key, srcValue) # source) =
     merge
       (case srcValue of
          JObject sps \<Rightarrow>
            assignValue key
              (JObject (merge (case property object key of JObject ops \<Rightarrow> ops | _ \<Rightarrow> []) sps))
              object
        | JUndefined \<Rightarrow>
            (if key \<in> fst ` set object then object else assignValue key JUndefined object)
        | _ \<Rightarrow> assignValue key srcValue object)
       source"
  by pat_completeness auto
termination
  by (relation "measure (\<lambda>(object, source). size_list (size_prod (\<lambda>_. 0) size) source)") auto

subsection \<open>Responses\<close>

text \<open>
  What \<^verbatim>\<open>fetchJSON\<close> reads of a \<^verbatim>\<open>Response\<close>: \<^verbatim>\<open>ok\<close>, \<^verbatim>\<open>status\<close>,
  \<^verbatim>\<open>headers.get('content-type')\<close> (\<open>None\<close> is \<^verbatim>\<open>null\<close>) and the string that
  \<^verbatim>\<open>clone().text()\<close> resolves to (\<open>responseText\<close>).
\<close>

record response =
  ok :: bool
  status :: int
  contentType :: "string option"
  responseText :: string

text \<open>\<^verbatim>\<open>ResponseBody | null | string\<close>; \<open>'j\<close> is whatever \<^verbatim>\<open>JSON.parse\<close> returns.\<close>

datatype 'j body = BodyNull | BodyJSON 'j | BodyText string

text \<open>
  What \<^verbatim>\<open>fetchJSON\<close> can reject with: the rejection of \<^verbatim>\<open>fetch\<close> itself, the \<^verbatim>\<open>Error\<close> of
  line 65 with its message, or the \<^verbatim>\<open>ResponseErrorImpl\<close> of line 96 with its three fields.
\<close>

datatype ('x, 'j) fetchJSON_error =
    FetchRejected 'x
  | ParseError string
  | ResponseError int response "'j body"

subsection \<open>The functions of fetchJSON.ts\<close>

text \<open>
  \<^verbatim>\<open>JSON.parse\<close> belongs to the platform; it is the parameter \<open>parse\<close>, which is \<open>None\<close>
  where \<^verbatim>\<open>JSON.parse\<close> throws.
\<close>

definition tryParseJSON ::
  "(string \<Rightarrow> 'j option) \<Rightarrow> string \<Rightarrow> ('x, 'j) fetchJSON_error + 'j body" where
  "tryParseJSON parse json =
     (if json = [] then Inr BodyNull
      else (case parse json of
              Some v \<Rightarrow> Inr (BodyJSON v)
            | None \<Rightarrow> Inl (ParseError (''Failed to parse unexpected JSON response: '' @ json))))"

text \<open>\<^verbatim>\<open>String.prototype.includes\<close>: the second string occurs somewhere in the first.\<close>

fun includes_str :: "string \<Rightarrow> string \<Rightarrow> bool" where
  "includes_str [] sub = (sub = [])"
| "includes_str (c # cs) sub = (prefix sub (c # cs) \<or> includes_str cs sub)"

text \<open>\<^verbatim>\<open>contentType?.includes('json') ?? false\<close>\<close>

definition isJSON :: "response \<Rightarrow> bool" where
  "isJSON r = (case contentType r of None \<Rightarrow> False | Some ct \<Rightarrow> includes_str ct ''json'')"

definition getResponseBody ::
  "(string \<Rightarrow> 'j option) \<Rightarrow> response \<Rightarrow> ('x, 'j) fetchJSON_error + 'j body" where
  "getResponseBody parse r =
     (if isJSON r then tryParseJSON parse (responseText r) else Inr (BodyText (responseText r)))"

definition checkStatus ::
  "response \<Rightarrow> 'j body \<Rightarrow> ('x, 'j) fetchJSON_error + (response \<times> 'j body)" where
  "checkStatus r b = (if ok r then Inr (r, b) else Inl (ResponseError (status r) r b))"

text \<open>Lines 22-31: the options handed to \<^verbatim>\<open>fetch\<close>.\<close>

definition fetchOptions :: "'a jsobject \<Rightarrow> 'a jsobject" where
  "fetchOptions opts =
     (if property opts ''body'' = JUndefined then opts
      else merge [(''headers'', JObject [(''Content-Type'', JString ''application/json'')])] opts)"

text \<open>
  \<^verbatim>\<open>fetchJSON(url, options)\<close>. The global \<^verbatim>\<open>fetch\<close> is the parameter \<open>fetch\<close>, giving how
  the promise of a call settles (\<open>Inl\<close> a rejection). The result is the argument list
  of the one call to \<^verbatim>\<open>fetch\<close>, and how the promise of \<^verbatim>\<open>fetchJSON\<close> settles.
\<close>

definition fetchJSON ::
  "(string \<Rightarrow> 'j option) \<Rightarrow> ('u \<Rightarrow> 'a jsobject \<Rightarrow> 'x + response) \<Rightarrow> 'u \<Rightarrow> 'a jsobject
     \<Rightarrow> ('u \<times> 'a jsobject) \<times> (('x, 'j) fetchJSON_error + (response \<times> 'j body))" where
  "fetchJSON parse fetch u opts =
     ((u, fetchOptions opts),
      (case fetch u (fetchOptions opts) of
         Inl x \<Rightarrow> Inl (FetchRejected x)
       | Inr r \<Rightarrow>
           (case getResponseBody parse r of
              Inl e \<Rightarrow> Inl e
            | Inr b \<Rightarrow> checkStatus r b)))"

text \<open>
  A stand-in for \<^verbatim>\<open>JSON.parse\<close> in examples: it accepts one given text, with a given value,
  and fails on every other.
\<close>

definition parsesOnly :: "string \<Rightarrow> 'j \<Rightarrow> string \<Rightarrow> 'j option" where
  "parsesOnly accepted v json = (if json = accepted then Some v else None)"

text \<open>
  A \<^verbatim>\<open>fetch\<close> that resolves with a given response, as \<^verbatim>\<open>mockFetch.mockResolvedValue\<close>
  does in the tests of \<^verbatim>\<open>fetchJSON\<close>.
\<close>

definition respondWith :: "response \<Rightarrow> 'u \<Rightarrow> 'a jsobject \<Rightarrow> 'x + response" where
  "respondWith r u opts = Inr r"

section \<open>Predicates and examples used in the proofs\<close>

text \<open>
  A pending promise is the one the variable holds, and the variable never holds a promise
  that was not made.
\<close>

definition handle_inv :: "('u, 'o, 'v, 'e) state \<Rightarrow> bool" where
  "handle_inv s \<longleftrightarrow>
     (\<forall>p < length (refreshes s).
        promiseState (refreshes s ! p) = Pending \<longrightarrow> refreshingTokenPromise s = Some p) \<and>
     (\<forall>p. refreshingTokenPromise s = Some p \<longrightarrow> p < length (refreshes s))"

text \<open>
  The variable holds promise \<open>p\<close>, which is settled, and no promise is pending: no
  callback is left that would set the variable to \<^verbatim>\<open>null\<close>.
\<close>

definition handleStuck :: "nat \<Rightarrow> ('u, 'o, 'v, 'e) state \<Rightarrow> bool" where
  "handleStuck p s \<longleftrightarrow>
     refreshingTokenPromise s = Some p \<and>
     (\<forall>q < length (refreshes s). promiseState (refreshes s ! q) \<noteq> Pending)"

text \<open>Every call of \<^verbatim>\<open>refreshToken()\<close> was made by an invocation that exists.\<close>

definition invokers_known :: "('u, 'o, 'v, 'e) state \<Rightarrow> bool" where
  "invokers_known s \<longleftrightarrow> (\<forall>r\<in>set (refreshes s). invokedBy r < length (calls s))"

text \<open>
  An invocation none of whose transport calls has settled yet: it has called the transport
  at most once, with its own arguments, and has classified nothing.
\<close>

definition beforeFirstSettle :: "'u \<Rightarrow> 'o \<Rightarrow> ('u, 'o, 'v, 'e) call \<Rightarrow> bool" where
  "beforeFirstSettle u opts c \<longleftrightarrow>
     url c = u \<and> options c = opts \<and> shouldRefreshTokenCalls c = [] \<and>
     (case point c of
        AwaitFetch \<Rightarrow> fetchCalls c = [(u, opts)]
      | BystanderAwaitRefresh p \<Rightarrow> fetchCalls c = []
      | BystanderAwaitFetchTry \<Rightarrow> fetchCalls c = [(u, opts)]
      | BystanderAwaitFetchCatch \<Rightarrow> fetchCalls c = [(u, opts)]
      | _ \<Rightarrow> False)"

text \<open>
  An invocation that will call the transport no more: it awaits a refresh that has been
  rejected (line 51, then line 56), or it has settled.
\<close>

definition noTransportCallAhead ::
  "('u, 'o, 'v, 'e) state \<Rightarrow> ('u, 'o, 'v, 'e) call \<Rightarrow> bool" where
  "noTransportCallAhead s c \<longleftrightarrow>
     (case point c of
        AwaitRefresh p error \<Rightarrow>
          p < length (refreshes s) \<and>
          (case promiseState (refreshes s ! p) of RejectedWith r \<Rightarrow> True | _ \<Rightarrow> False)
      | Settled out \<Rightarrow> True
      | _ \<Rightarrow> False)"




text \<open>
  An invocation on the path of lines 19-28: it is suspended at line 21, 22 or 26, or has
  settled from there, and has classified nothing.
\<close>

definition bystanderCall :: "('u, 'o, 'v, 'e) call \<Rightarrow> bool" where
  "bystanderCall c \<longleftrightarrow>
     shouldRefreshTokenCalls c = [] \<and>
     (case point c of
        AwaitFetch \<Rightarrow> False
      | AwaitRefresh p error \<Rightarrow> False
      | AwaitRetry error \<Rightarrow> False
      | _ \<Rightarrow> True)"

text \<open>
  The predicate of the test suite (configureRefreshFetch.spec.ts, lines 74, 123 and 160):
  \<^verbatim>\<open>(error: Error) => error.message === 'Token expired'\<close>, with an error standing for
  its message.
\<close>

definition tokenExpired :: "string \<Rightarrow> bool" where
  "tokenExpired error = (error = ''Token expired'')"

section \<open>Schedules\<close>

lemmas step_defs = invoke_def fetchSettled_def refreshTokenSettled_def resume_def setCall_def
  issueFetch_def callsRefreshToken_def Let_def

lemmas eval_defs = init_def invoke_def fetchSettled_def refreshTokenSettled_def resume_def
  setCall_def issueFetch_def callsRefreshToken_def tokenExpired_def

lemma run_append:
  "run srt (es @ es') s = (case run srt es s of None \<Rightarrow> None | Some s' \<Rightarrow> run srt es' s')"
  by (induction es arbitrary: s) (auto split: option.splits)

lemma run_snoc:
  "run srt (es @ [e]) s = Some t \<longleftrightarrow> (\<exists>s'. run srt es s = Some s' \<and> step srt e s' = Some t)"
  by (auto simp: run_append split: option.splits)

lemma run_Cons:
  "run srt (e # es) s = Some t \<longleftrightarrow> (\<exists>s'. step srt e s = Some s' \<and> run srt es s' = Some t)"
  by (auto split: option.splits)

lemma run_preserves:
  assumes "run srt es s = Some t" and "I s" and "\<forall>e\<in>set es. Q e"
    and "\<And>e s t. Q e \<Longrightarrow> I s \<Longrightarrow> step srt e s = Some t \<Longrightarrow> I t"
  shows "I t"
  using assms(1,2,3)
proof (induction es arbitrary: s)
  case Nil
  then show ?case by simp
next
  case (Cons e es)
  from Cons.prems(1) obtain s' where s': "step srt e s = Some s'" "run srt es s' = Some t"
    by (auto split: option.splits)
  have "I s'" using assms(4)[of e s s'] Cons.prems s' by simp
  then show ?case using Cons.IH[OF s'(2)] Cons.prems(3) by simp
qed

lemma step_frame:
  assumes "step srt e s = Some t" and "target e \<noteq> Some cid" and "cid < length (calls s)"
  shows "cid < length (calls t) \<and> calls t ! cid = calls s ! cid"
  using assms
  by (cases e)
     (auto simp: step_defs nth_append
           split: if_splits point.splits outcome.splits option.splits promise_state.splits)

lemma run_frame:
  assumes "run srt es s = Some t" and "\<forall>e\<in>set es. target e \<noteq> Some cid"
    and "cid < length (calls s)"
  shows "cid < length (calls t) \<and> calls t ! cid = calls s ! cid"
proof (rule run_preserves[where I = "\<lambda>x. cid < length (calls x) \<and> calls x ! cid = calls s ! cid"
      and Q = "\<lambda>e. target e \<noteq> Some cid", OF assms(1)])
  show "cid < length (calls s) \<and> calls s ! cid = calls s ! cid" using assms(3) by simp
  show "\<forall>e\<in>set es. target e \<noteq> Some cid" by (rule assms(2))
  fix e x y
  assume "target e \<noteq> Some cid" "cid < length (calls x) \<and> calls x ! cid = calls s ! cid"
    "step srt e x = Some y"
  then show "cid < length (calls y) \<and> calls y ! cid = calls s ! cid"
    using step_frame[of srt e x y cid] by simp
qed


lemma handle_inv_init: "handle_inv init"
  by (simp add: handle_inv_def init_def)

lemma step_handle_effect:
  assumes "step srt e s = Some t"
  shows "(refreshingTokenPromise t = refreshingTokenPromise s \<and> refreshes t = refreshes s) \<or>
         (refreshingTokenPromise s = None \<and>
            refreshingTokenPromise t = Some (length (refreshes s)) \<and>
            (\<exists>r. refreshes t = refreshes s @ [r])) \<or>
         (\<exists>p st. p < length (refreshes s) \<and> promiseState (refreshes s ! p) = Pending \<and>
            st \<noteq> Pending \<and> refreshingTokenPromise t = None \<and>
            refreshes t = (refreshes s)[p := (refreshes s ! p)\<lparr>promiseState := st\<rparr>])"
proof (cases e)
  case (Invoke u opts)
  then show ?thesis using assms by (auto simp: invoke_def split: option.splits)
next
  case (FetchSettles cid out)
  then show ?thesis using assms
    by (auto simp: step_defs split: if_splits point.splits outcome.splits option.splits)
next
  case (RefreshTokenThrows cid error x)
  then show ?thesis using assms
    by (auto simp: step_defs split: if_splits point.splits option.splits)
next
  case (RefreshTokenSettles p r)
  with assms have p: "p < length (refreshes s)" "promiseState (refreshes s ! p) = Pending"
    and t: "refreshingTokenPromise t = None"
      "refreshes t = (refreshes s)[p := (refreshes s ! p)
        \<lparr>promiseState := (case r of None \<Rightarrow> Fulfilled | Some x \<Rightarrow> RejectedWith x)\<rparr>]"
    by (auto simp: refreshTokenSettled_def split: if_splits)
  have "(case r of None \<Rightarrow> Fulfilled | Some x \<Rightarrow> RejectedWith x) \<noteq> Pending"
    by (cases r) simp_all
  with p t show ?thesis by blast
next
  case (Resume cid)
  then show ?thesis using assms
    by (auto simp: step_defs split: if_splits point.splits promise_state.splits)
qed

lemma handle_inv_step:
  assumes "handle_inv s" and "step srt e s = Some t"
  shows "handle_inv t"
proof -
  from assms(1) have pend: "\<And>q. q < length (refreshes s) \<Longrightarrow>
      promiseState (refreshes s ! q) = Pending \<Longrightarrow> refreshingTokenPromise s = Some q"
    and inr: "\<And>q. refreshingTokenPromise s = Some q \<Longrightarrow> q < length (refreshes s)"
    unfolding handle_inv_def by blast+
  from step_handle_effect[OF assms(2)] consider
      (same) "refreshingTokenPromise t = refreshingTokenPromise s" "refreshes t = refreshes s"
    | (new) r where "refreshingTokenPromise s = None"
        "refreshingTokenPromise t = Some (length (refreshes s))" "refreshes t = refreshes s @ [r]"
    | (settled) p st where "p < length (refreshes s)" "promiseState (refreshes s ! p) = Pending"
        "st \<noteq> Pending" "refreshingTokenPromise t = None"
        "refreshes t = (refreshes s)[p := (refreshes s ! p)\<lparr>promiseState := st\<rparr>]"
    by blast
  then show ?thesis
  proof cases
    case same
    with assms(1) show ?thesis unfolding handle_inv_def by metis
  next
    case new
    have "refreshingTokenPromise t = Some q"
      if "q < length (refreshes t)" "promiseState (refreshes t ! q) = Pending" for q
    proof (cases "q < length (refreshes s)")
      case True
      with that new(3) have "promiseState (refreshes s ! q) = Pending" by (simp add: nth_append)
      from pend[OF True this] new(1) show ?thesis by simp
    next
      case False
      with that new(3) have "q = length (refreshes s)" by simp
      with new(2) show ?thesis by simp
    qed
    moreover have "q < length (refreshes t)" if "refreshingTokenPromise t = Some q" for q
      using that new(2,3) by simp
    ultimately show ?thesis unfolding handle_inv_def by blast
  next
    case settled
    have p: "refreshingTokenPromise s = Some p" by (rule pend[OF settled(1,2)])
    have "promiseState (refreshes t ! q) \<noteq> Pending" if "q < length (refreshes t)" for q
    proof (cases "q = p")
      case True
      with settled show ?thesis by simp
    next
      case False
      show ?thesis
      proof
        assume "promiseState (refreshes t ! q) = Pending"
        with False that settled(5) have "promiseState (refreshes s ! q) = Pending"
          "q < length (refreshes s)" by simp_all
        from pend[OF this(2,1)] p False show False by simp
      qed
    qed
    with settled(4) show ?thesis unfolding handle_inv_def by simp
  qed
qed

lemma handle_inv_run:
  assumes "run srt es s = Some t" and "handle_inv s"
  shows "handle_inv t"
  by (rule run_preserves[where I = handle_inv and Q = "\<lambda>e. True", OF assms])
     (auto intro: handle_inv_step)

lemma filter_at_most_one:
  assumes "\<forall>i < length xs. \<forall>j < length xs. P (xs ! i) \<longrightarrow> P (xs ! j) \<longrightarrow> i = j"
  shows "length (filter P xs) \<le> 1"
  using assms
proof (induction xs)
  case Nil
  then show ?case by simp
next
  case (Cons x xs)
  have tl: "\<forall>i < length xs. \<forall>j < length xs. P (xs ! i) \<longrightarrow> P (xs ! j) \<longrightarrow> i = j"
  proof (intro allI impI)
    fix i j assume "i < length xs" "j < length xs" "P (xs ! i)" "P (xs ! j)"
    then have "Suc i = Suc j" using Cons.prems[rule_format, of "Suc i" "Suc j"] by simp
    then show "i = j" by simp
  qed
  show ?case
  proof (cases "P x")
    case True
    have "\<not> P y" if "y \<in> set xs" for y
    proof
      assume "P y"
      from that obtain j where "j < length xs" "xs ! j = y" by (auto simp: in_set_conv_nth)
      then have "0 = Suc j" using Cons.prems[rule_format, of 0 "Suc j"] True \<open>P y\<close> by simp
      then show False by simp
    qed
    then have "filter P xs = []" by (simp add: filter_empty_conv)
    then show ?thesis using True by simp
  next
    case False
    then show ?thesis using Cons.IH[OF tl] by simp
  qed
qed


lemma invoke_new_call:
  "length (calls (invoke u opts s)) = Suc (length (calls s))"
  "refreshingTokenPromise (invoke u opts s) = refreshingTokenPromise s"
  "refreshes (invoke u opts s) = refreshes s"
  "calls (invoke u opts s) ! length (calls s) =
     (case refreshingTokenPromise s of
        Some p \<Rightarrow> \<lparr>url = u, options = opts, point = BystanderAwaitRefresh p,
                    fetchCalls = [], shouldRefreshTokenCalls = []\<rparr>
      | None \<Rightarrow> \<lparr>url = u, options = opts, point = AwaitFetch,
                    fetchCalls = [(u, opts)], shouldRefreshTokenCalls = []\<rparr>)"
  by (auto simp: invoke_def issueFetch_def split: option.splits)

lemma invoke_beforeFirstSettle:
  "beforeFirstSettle u opts (calls (invoke u opts s) ! length (calls s))"
  by (cases "refreshingTokenPromise s") (simp_all add: invoke_new_call beforeFirstSettle_def)

lemma rejected_stays:
  assumes "step srt e s = Some t" and "p < length (refreshes s)"
    and "promiseState (refreshes s ! p) = RejectedWith r"
  shows "p < length (refreshes t) \<and> promiseState (refreshes t ! p) = RejectedWith r"
  using step_handle_effect[OF assms(1)] assms(2,3)
  by (auto simp: nth_append nth_list_update)

lemma step_beforeFirstSettle:
  assumes "step srt e s = Some t" and "\<forall>out. e \<noteq> FetchSettles cid out"
    and "cid < length (calls s) \<and>
         (beforeFirstSettle u opts (calls s ! cid) \<or> noTransportCallAhead s (calls s ! cid))"
  shows "cid < length (calls t) \<and>
         (beforeFirstSettle u opts (calls t ! cid) \<or> noTransportCallAhead t (calls t ! cid))"
proof (cases "target e = Some cid")
  case False
  from step_frame[OF assms(1) False] assms(3)
  have c: "cid < length (calls t)" "calls t ! cid = calls s ! cid" by simp_all
  show ?thesis
  proof (cases "beforeFirstSettle u opts (calls s ! cid)")
    case True
    with c show ?thesis by simp
  next
    case False
    with assms(3) have n: "noTransportCallAhead s (calls s ! cid)" by simp
    have "noTransportCallAhead t (calls s ! cid)"
    proof (cases "point (calls s ! cid)")
      case (AwaitRefresh p error)
      with n obtain r where "p < length (refreshes s)"
        "promiseState (refreshes s ! p) = RejectedWith r"
        by (auto simp: noTransportCallAhead_def split: promise_state.splits)
      from rejected_stays[OF assms(1) this] AwaitRefresh show ?thesis
        by (simp add: noTransportCallAhead_def)
    qed (use n in \<open>simp_all add: noTransportCallAhead_def\<close>)
    with c show ?thesis by simp
  qed
next
  case True
  with assms(2) consider error x where "e = RefreshTokenThrows cid error x" | "e = Resume cid"
    by (cases e) auto
  then show ?thesis
  proof cases
    case 1
    then show ?thesis using assms(1,3)
      by (auto simp: step_defs beforeFirstSettle_def noTransportCallAhead_def
               split: if_splits point.splits)
  next
    case 2
    then show ?thesis using assms(1,3)
      by (auto simp: resume_def setCall_def issueFetch_def beforeFirstSettle_def
            noTransportCallAhead_def Let_def
            split: if_splits point.splits promise_state.splits)
  qed
qed

lemma run_beforeFirstSettle:
  assumes "run srt es s = Some t" and "\<forall>e\<in>set es. \<forall>out. e \<noteq> FetchSettles cid out"
    and "cid < length (calls s) \<and>
         (beforeFirstSettle u opts (calls s ! cid) \<or> noTransportCallAhead s (calls s ! cid))"
  shows "cid < length (calls t) \<and>
         (beforeFirstSettle u opts (calls t ! cid) \<or> noTransportCallAhead t (calls t ! cid))"
  by (rule run_preserves[where Q = "\<lambda>e. \<forall>out. e \<noteq> FetchSettles cid out"
        and I = "\<lambda>x. cid < length (calls x) \<and>
          (beforeFirstSettle u opts (calls x ! cid) \<or> noTransportCallAhead x (calls x ! cid))",
        OF assms(1) assms(3) assms(2)])
     (rule step_beforeFirstSettle)

section \<open>Pass-through\<close>

text \<open>
  Claim C6. For every invocation whose transport call succeeds, the wrapped function
  returns exactly the transport's success value, and the transport was called exactly
  once by that invocation. The invocation is the one numbered \<open>length (calls s)\<close>, entered
  in any state \<open>s\<close>, with or without a refresh in progress; \<open>es\<close> is whatever else happens
  before its first transport call settles.
\<close>

theorem pass_through:
  assumes "run srt (Invoke u opts # es @ [FetchSettles (length (calls s)) (Resolved v)]) s = Some t"
    and "\<forall>e\<in>set es. \<forall>out. e \<noteq> FetchSettles (length (calls s)) out"
  shows "point (calls t ! length (calls s)) = Settled (Resolved v) \<and>
         fetchCalls (calls t ! length (calls s)) = [(u, opts)]"
proof -
  let ?cid = "length (calls s)"
  from assms(1) obtain s' where s': "run srt es (invoke u opts s) = Some s'"
    and t: "fetchSettled srt None ?cid (Resolved v) s' = Some t"
    by (auto simp: run_append split: option.splits)
  have "?cid < length (calls s') \<and>
      (beforeFirstSettle u opts (calls s' ! ?cid) \<or> noTransportCallAhead s' (calls s' ! ?cid))"
    by (rule run_beforeFirstSettle[OF s' assms(2)])
       (simp add: invoke_new_call(1) invoke_beforeFirstSettle)
  with t show ?thesis
    by (auto simp: fetchSettled_def setCall_def beforeFirstSettle_def noTransportCallAhead_def
          Let_def split: if_splits point.splits)
qed


text \<open>
  The first test of the suite, with a second invocation in flight: \<^verbatim>\<open>fetch('/foo', POST)\<close>
  resolves with \<^verbatim>\<open>'result'\<close>.
\<close>

theorem pass_through_witness:
  "run tokenExpired
     [Invoke ''/foo'' ''POST'', Invoke ''/bar'' ''GET'', FetchSettles 0 (Resolved ''result'')] init =
   Some \<lparr>refreshingTokenPromise = None, refreshes = [],
          calls = [\<lparr>url = ''/foo'', options = ''POST'', point = Settled (Resolved ''result''),
                     fetchCalls = [(''/foo'', ''POST'')], shouldRefreshTokenCalls = []\<rparr>,
                   \<lparr>url = ''/bar'', options = ''GET'', point = AwaitFetch,
                     fetchCalls = [(''/bar'', ''GET'')], shouldRefreshTokenCalls = []\<rparr>]\<rparr>"
  (is "?run = Some ?t")
proof -
  have h: "?run = Some ?t" by (simp add: eval_defs)
  have "\<forall>e\<in>set [Invoke ''/bar'' ''GET'' :: (string, string, string, string) event].
      \<forall>out. e \<noteq> FetchSettles (length (calls (init :: (string, string, string, string) state))) out"
    by simp
  from pass_through[where srt = tokenExpired and s = init and es = "[Invoke ''/bar'' ''GET'']"
      and t = ?t and u = "''/foo''" and opts = "''POST''" and v = "''result''", OF _ this] h
  have "point (calls ?t ! length (calls (init :: (string, string, string, string) state)))
      = Settled (Resolved ''result'')"
    by (simp add: init_def)
  with h show ?thesis by simp
qed

section \<open>Failures that are not auth failures\<close>

lemma invokedBy_settled:
  assumes "\<forall>r\<in>set xs. P (invokedBy r)" and "p < length xs"
  shows "\<forall>r\<in>set (xs[p := (xs ! p)\<lparr>promiseState := st\<rparr>]). P (invokedBy r)"
proof
  fix r assume "r \<in> set (xs[p := (xs ! p)\<lparr>promiseState := st\<rparr>])"
  then obtain i where i: "i < length xs" "r = (xs[p := (xs ! p)\<lparr>promiseState := st\<rparr>]) ! i"
    by (auto simp: in_set_conv_nth)
  then have "invokedBy r = invokedBy (xs ! i)" by (cases "i = p") simp_all
  moreover have "xs ! i \<in> set xs" using i(1) by simp
  ultimately show "P (invokedBy r)" using assms(1) by simp
qed

lemma refreshes_invokedBy_step:
  assumes "step srt e s = Some t" and "target e \<noteq> Some cid"
    and "\<forall>r\<in>set (refreshes s). invokedBy r \<noteq> cid"
  shows "\<forall>r\<in>set (refreshes t). invokedBy r \<noteq> cid"
proof (cases e)
  case (Invoke u opts)
  then show ?thesis using assms by (auto simp: invoke_new_call)
next
  case (FetchSettles c out)
  then show ?thesis using assms
    by (auto simp: step_defs split: if_splits point.splits outcome.splits option.splits)
next
  case (RefreshTokenThrows c error x)
  then show ?thesis using assms
    by (auto simp: step_defs split: if_splits point.splits option.splits)
next
  case (RefreshTokenSettles p r)
  with assms(1) have p: "p < length (refreshes s)"
    and t: "refreshes t = (refreshes s)[p := (refreshes s ! p)
        \<lparr>promiseState := (case r of None \<Rightarrow> Fulfilled | Some x \<Rightarrow> RejectedWith x)\<rparr>]"
    by (auto simp: refreshTokenSettled_def split: if_splits)
  show ?thesis unfolding t
    by (rule invokedBy_settled[where P = "\<lambda>i. i \<noteq> cid", OF assms(3) p])
next
  case (Resume c)
  then show ?thesis using assms
    by (auto simp: step_defs split: if_splits point.splits promise_state.splits)
qed

lemma refreshes_invokedBy_run:
  assumes "run srt es s = Some t" and "\<forall>e\<in>set es. target e \<noteq> Some cid"
    and "\<forall>r\<in>set (refreshes s). invokedBy r \<noteq> cid"
  shows "\<forall>r\<in>set (refreshes t). invokedBy r \<noteq> cid"
proof (rule run_preserves[where Q = "\<lambda>e. target e \<noteq> Some cid"
        and I = "\<lambda>x. \<forall>r\<in>set (refreshes x). invokedBy r \<noteq> cid", OF assms(1) assms(3) assms(2)])
  fix e x y
  assume "target e \<noteq> Some cid" "\<forall>r\<in>set (refreshes x). invokedBy r \<noteq> cid"
    "step srt e x = Some y"
  then show "\<forall>r\<in>set (refreshes y). invokedBy r \<noteq> cid"
    using refreshes_invokedBy_step[of srt e x y cid] by blast
qed

lemma invokers_known_step:
  assumes "step srt e s = Some t" and "invokers_known s"
  shows "invokers_known t"
proof (cases e)
  case (Invoke u opts)
  then show ?thesis using assms by (auto simp: invokers_known_def invoke_new_call less_Suc_eq)
next
  case (FetchSettles c out)
  then show ?thesis using assms
    by (auto simp: invokers_known_def step_defs
             split: if_splits point.splits outcome.splits option.splits)
next
  case (RefreshTokenThrows c error x)
  then show ?thesis using assms
    by (auto simp: invokers_known_def step_defs split: if_splits point.splits option.splits)
next
  case (RefreshTokenSettles p r)
  with assms(1) have p: "p < length (refreshes s)" and c: "calls t = calls s"
    and t: "refreshes t = (refreshes s)[p := (refreshes s ! p)
        \<lparr>promiseState := (case r of None \<Rightarrow> Fulfilled | Some x \<Rightarrow> RejectedWith x)\<rparr>]"
    by (auto simp: refreshTokenSettled_def split: if_splits)
  from assms(2) have "\<forall>r\<in>set (refreshes s). invokedBy r < length (calls s)"
    by (simp add: invokers_known_def)
  then show ?thesis unfolding invokers_known_def t c
    by (rule invokedBy_settled[where P = "\<lambda>i. i < length (calls s)", OF _ p])
next
  case (Resume c)
  then show ?thesis using assms
    by (auto simp: invokers_known_def step_defs
             split: if_splits point.splits promise_state.splits)
qed

lemma invokers_known_run:
  assumes "run srt es s = Some t" and "invokers_known s"
  shows "invokers_known t"
  by (rule run_preserves[where I = invokers_known and Q = "\<lambda>e. True", OF assms])
     (auto intro: invokers_known_step)

lemma invokers_known_init: "invokers_known init"
  by (simp add: invokers_known_def init_def)

text \<open>
  Claim C7. For every invocation entered with no refresh pending whose transport call
  fails with an error \<open>E\<close> that \<^verbatim>\<open>shouldRefreshToken\<close> rejects, the wrapped function rejects
  with exactly \<open>E\<close>, the invocation never calls \<^verbatim>\<open>refreshToken\<close> (no promise of \<open>refreshes\<close>
  was made by it), and it calls \<^verbatim>\<open>shouldRefreshToken\<close> exactly once, with \<open>E\<close>.
\<close>

theorem no_spurious_refresh:
  assumes "run srt es0 init = Some s"
    and "refreshingTokenPromise s = None"
    and "run srt (Invoke u opts # es @ [FetchSettles (length (calls s)) (Rejected E)]) s = Some t"
    and "\<forall>e\<in>set es. target e \<noteq> Some (length (calls s))"
    and "\<not> srt E"
  shows "point (calls t ! length (calls s)) = Settled (Rejected E) \<and>
         (\<forall>r\<in>set (refreshes t). invokedBy r \<noteq> length (calls s)) \<and>
         shouldRefreshTokenCalls (calls t ! length (calls s)) = [E] \<and>
         fetchCalls (calls t ! length (calls s)) = [(u, opts)]"
proof -
  let ?cid = "length (calls s)"
  let ?s0 = "invoke u opts s"
  from assms(3) obtain s' where s': "run srt es ?s0 = Some s'"
    and t: "fetchSettled srt None ?cid (Rejected E) s' = Some t"
    by (auto simp: run_append split: option.splits)
  have "invokers_known s" by (rule invokers_known_run[OF assms(1) invokers_known_init])
  then have "\<forall>r\<in>set (refreshes ?s0). invokedBy r \<noteq> ?cid"
    by (auto simp: invokers_known_def invoke_new_call)
  then have none: "\<forall>r\<in>set (refreshes s'). invokedBy r \<noteq> ?cid"
    by (rule refreshes_invokedBy_run[OF s' assms(4)])
  have "?cid < length (calls s') \<and> calls s' ! ?cid = calls ?s0 ! ?cid"
    by (rule run_frame[OF s' assms(4)]) (simp add: invoke_new_call)
  then have c: "?cid < length (calls s')"
    "calls s' ! ?cid = \<lparr>url = u, options = opts, point = AwaitFetch,
        fetchCalls = [(u, opts)], shouldRefreshTokenCalls = []\<rparr>"
    using assms(2) by (simp_all add: invoke_new_call)
  from t c assms(5) have "refreshes t = refreshes s'"
    and "calls t ! ?cid = \<lparr>url = u, options = opts, point = Settled (Rejected E),
        fetchCalls = [(u, opts)], shouldRefreshTokenCalls = [E]\<rparr>"
    by (auto simp: fetchSettled_def setCall_def Let_def)
  with none show ?thesis by simp
qed

text \<open>
  An invocation of \<^verbatim>\<open>/foo\<close> that fails with \<^verbatim>\<open>'I am reason'\<close> while another one is in flight.
\<close>

theorem no_spurious_refresh_witness:
  "run tokenExpired
     [Invoke ''/bar'' ''GET'', Invoke ''/foo'' ''POST'', FetchSettles 0 (Resolved ''result''),
      FetchSettles 1 (Rejected ''I am reason'')] init =
   Some \<lparr>refreshingTokenPromise = None, refreshes = [],
          calls = [\<lparr>url = ''/bar'', options = ''GET'', point = Settled (Resolved ''result''),
                     fetchCalls = [(''/bar'', ''GET'')], shouldRefreshTokenCalls = []\<rparr>,
                   \<lparr>url = ''/foo'', options = ''POST'', point = Settled (Rejected ''I am reason''),
                     fetchCalls = [(''/foo'', ''POST'')],
                     shouldRefreshTokenCalls = [''I am reason'']\<rparr>]\<rparr>"
  (is "?run = Some ?t")
proof -
  let ?s = "\<lparr>refreshingTokenPromise = None, refreshes = [],
          calls = [\<lparr>url = ''/bar'', options = ''GET'', point = AwaitFetch,
                     fetchCalls = [(''/bar'', ''GET'')],
                     shouldRefreshTokenCalls = ([] :: string list)\<rparr>]\<rparr>
        :: (string, string, string, string) state"
  have h1: "run tokenExpired [Invoke ''/bar'' ''GET''] init = Some ?s" by (simp add: eval_defs)
  have h2: "refreshingTokenPromise ?s = None" by simp
  have h3: "run tokenExpired (Invoke ''/foo'' ''POST'' # [FetchSettles 0 (Resolved ''result'')] @
      [FetchSettles (length (calls ?s)) (Rejected ''I am reason'')]) ?s = Some ?t"
    by (simp add: eval_defs)
  have h4: "\<forall>e\<in>set [FetchSettles 0 (Resolved ''result'') :: (string, string, string, string) event].
      target e \<noteq> Some (length (calls ?s))"
    by simp
  have h5: "\<not> tokenExpired ''I am reason''" by (simp add: tokenExpired_def)
  have c: "point (calls ?t ! length (calls ?s)) = Settled (Rejected ''I am reason'')"
    by (rule no_spurious_refresh[where srt = tokenExpired and ?es0.0 = "[Invoke ''/bar'' ''GET'']"
          and s = ?s and u = "''/foo''" and opts = "''POST''"
          and es = "[FetchSettles 0 (Resolved ''result'')]" and E = "''I am reason''" and t = ?t,
          OF h1 h2 h3 h4 h5, THEN conjunct1])
  have "?run = Some ?t" by (simp add: eval_defs)
  with c show ?thesis by blast
qed

section \<open>When the refresh fails\<close>

text \<open>
  Claim C3. For every invocation whose first transport attempt fails with an error \<open>E\<close>
  that \<^verbatim>\<open>shouldRefreshToken\<close> accepts, if the refresh that this invocation awaits (promise
  \<open>p\<close>) fails, with whatever error \<open>r\<close>, the wrapped function rejects with \<open>E\<close>; it has
  called the transport once.
\<close>

theorem original_error_precedence:
  assumes "refreshingTokenPromise s = None"
    and "srt E"
    and "run srt (Invoke u opts # es1 @ [FetchSettles (length (calls s)) (Rejected E)]) s = Some s1"
    and "\<forall>e\<in>set es1. target e \<noteq> Some (length (calls s))"
    and "run srt (es2 @ [Resume (length (calls s))]) s1 = Some t"
    and "\<forall>e\<in>set es2. target e \<noteq> Some (length (calls s))"
    and "awaitedRefresh (calls s1 ! length (calls s)) = Some p"
    and "promiseState (refreshes t ! p) = RejectedWith r"
  shows "point (calls t ! length (calls s)) = Settled (Rejected E) \<and>
         fetchCalls (calls t ! length (calls s)) = [(u, opts)]"
proof -
  let ?cid = "length (calls s)"
  let ?s0 = "invoke u opts s"
  from assms(3) obtain s' where s': "run srt es1 ?s0 = Some s'"
    and s1: "fetchSettled srt None ?cid (Rejected E) s' = Some s1"
    by (auto simp: run_append split: option.splits)
  have "?cid < length (calls s') \<and> calls s' ! ?cid = calls ?s0 ! ?cid"
    by (rule run_frame[OF s' assms(4)]) (simp add: invoke_new_call)
  then have c: "?cid < length (calls s')"
    "calls s' ! ?cid = \<lparr>url = u, options = opts, point = AwaitFetch,
        fetchCalls = [(u, opts)], shouldRefreshTokenCalls = []\<rparr>"
    using assms(1) by (simp_all add: invoke_new_call)
  from s1 c assms(2) obtain q where q: "?cid < length (calls s1)"
    "calls s1 ! ?cid = \<lparr>url = u, options = opts, point = AwaitRefresh q E,
        fetchCalls = [(u, opts)], shouldRefreshTokenCalls = [E]\<rparr>"
    by (auto simp: fetchSettled_def setCall_def Let_def split: option.splits)
  with assms(7) have qp: "q = p" by simp
  from assms(5) obtain s2 where s2: "run srt es2 s1 = Some s2"
    and t: "resume ?cid s2 = Some t"
    by (auto simp: run_append split: option.splits)
  have c2: "?cid < length (calls s2) \<and> calls s2 ! ?cid = calls s1 ! ?cid"
    by (rule run_frame[OF s2 assms(6) q(1)])
  from t have "refreshes t = refreshes s2"
    by (auto simp: resume_def setCall_def Let_def
             split: if_splits point.splits promise_state.splits)
  with assms(8) have "promiseState (refreshes s2 ! p) = RejectedWith r" by simp
  with t c2 q qp show ?thesis
    by (auto simp: resume_def setCall_def Let_def split: if_splits)
qed

text \<open>
  The test \<^emph>\<open>should throw original error if refresh fails\<close>.
\<close>

theorem original_error_precedence_witness:
  "run tokenExpired
     [Invoke ''/api/data'' ''{}'', FetchSettles 0 (Rejected ''Token expired''),
      RefreshTokenSettles 0 (Some ''Refresh failed''), Resume 0]
     (init :: (string, string, string, string) state) =
   Some \<lparr>refreshingTokenPromise = None,
          refreshes = [\<lparr>invokedBy = 0, promiseState = RejectedWith ''Refresh failed''\<rparr>],
          calls = [\<lparr>url = ''/api/data'', options = ''{}'',
                     point = Settled (Rejected ''Token expired''),
                     fetchCalls = [(''/api/data'', ''{}'')],
                     shouldRefreshTokenCalls = [''Token expired'']\<rparr>]\<rparr>"
  (is "?run = Some ?t")
proof -
  let ?s = "init :: (string, string, string, string) state"
  let ?s1 = "\<lparr>refreshingTokenPromise = Some 0,
          refreshes = [\<lparr>invokedBy = 0, promiseState = Pending\<rparr>],
          calls = [\<lparr>url = ''/api/data'', options = ''{}'',
                     point = AwaitRefresh 0 ''Token expired'',
                     fetchCalls = [(''/api/data'', ''{}'')],
                     shouldRefreshTokenCalls = [''Token expired'']\<rparr>]\<rparr>
        :: (string, string, string, string) state"
  have h1: "refreshingTokenPromise ?s = None" by (simp add: init_def)
  have h2: "tokenExpired ''Token expired''" by (simp add: tokenExpired_def)
  have h3: "run tokenExpired (Invoke ''/api/data'' ''{}'' # [] @
      [FetchSettles (length (calls ?s)) (Rejected ''Token expired'')]) ?s = Some ?s1"
    by (simp add: eval_defs)
  have h4: "\<forall>e\<in>set ([] :: (string, string, string, string) event list).
      target e \<noteq> Some (length (calls ?s))"
    by simp
  have h5: "run tokenExpired ([RefreshTokenSettles 0 (Some ''Refresh failed'')] @
      [Resume (length (calls ?s))]) ?s1 = Some ?t"
    by (simp add: eval_defs)
  have h6: "\<forall>e\<in>set [RefreshTokenSettles 0 (Some ''Refresh failed'')
        :: (string, string, string, string) event].
      target e \<noteq> Some (length (calls ?s))"
    by simp
  have h7: "awaitedRefresh (calls ?s1 ! length (calls ?s)) = Some 0" by (simp add: init_def)
  have h8: "promiseState (refreshes ?t ! 0) = RejectedWith ''Refresh failed''" by simp
  have c: "point (calls ?t ! length (calls ?s)) = Settled (Rejected ''Token expired'')"
    by (rule original_error_precedence[where srt = tokenExpired and s = ?s
          and E = "''Token expired''" and u = "''/api/data''" and opts = "''{}''"
          and ?es1.0 = "[]" and ?s1.0 = ?s1
          and ?es2.0 = "[RefreshTokenSettles 0 (Some ''Refresh failed'')]" and t = ?t
          and p = 0 and r = "''Refresh failed''",
          OF h1 h2 h3 h4 h5 h6 h7 h8, THEN conjunct1])
  have "?run = Some ?t" by (simp add: eval_defs)
  with c show ?thesis by blast
qed

text \<open>
  Claim C4. For every invocation that begins while a refresh is pending (promise \<open>p\<close>),
  if that refresh fails, with whatever error \<open>r\<close>, the invocation calls the transport with
  its own arguments when it resumes, and the outcome \<open>out\<close> of that call, success or
  failure, is the outcome of the invocation; \<open>r\<close> plays no part in it.
\<close>

theorem bystander_isolation:
  assumes "refreshingTokenPromise s = Some p"
    and "run srt (Invoke u opts # es1 @ [Resume (length (calls s))]) s = Some s1"
    and "\<forall>e\<in>set es1. target e \<noteq> Some (length (calls s))"
    and "promiseState (refreshes s1 ! p) = RejectedWith r"
    and "run srt (es2 @ [FetchSettles (length (calls s)) out]) s1 = Some t"
    and "\<forall>e\<in>set es2. target e \<noteq> Some (length (calls s))"
  shows "fetchCalls (calls s1 ! length (calls s)) = [(u, opts)] \<and>
         point (calls t ! length (calls s)) = Settled out \<and>
         fetchCalls (calls t ! length (calls s)) = [(u, opts)] \<and>
         shouldRefreshTokenCalls (calls t ! length (calls s)) = []"
proof -
  let ?cid = "length (calls s)"
  let ?s0 = "invoke u opts s"
  from assms(2) obtain s' where s': "run srt es1 ?s0 = Some s'"
    and s1: "resume ?cid s' = Some s1"
    by (auto simp: run_append split: option.splits)
  have "?cid < length (calls s') \<and> calls s' ! ?cid = calls ?s0 ! ?cid"
    by (rule run_frame[OF s' assms(3)]) (simp add: invoke_new_call)
  then have c: "?cid < length (calls s')"
    "calls s' ! ?cid = \<lparr>url = u, options = opts, point = BystanderAwaitRefresh p,
        fetchCalls = [], shouldRefreshTokenCalls = []\<rparr>"
    using assms(1) by (simp_all add: invoke_new_call)
  from s1 have "refreshes s1 = refreshes s'"
    by (auto simp: resume_def setCall_def Let_def
             split: if_splits point.splits promise_state.splits)
  with assms(4) have "promiseState (refreshes s' ! p) = RejectedWith r" by simp
  with s1 c have c1: "?cid < length (calls s1)"
    "calls s1 ! ?cid = \<lparr>url = u, options = opts, point = BystanderAwaitFetchCatch,
        fetchCalls = [(u, opts)], shouldRefreshTokenCalls = []\<rparr>"
    by (auto simp: resume_def setCall_def issueFetch_def Let_def split: if_splits)
  from assms(5) obtain s2 where s2: "run srt es2 s1 = Some s2"
    and t: "fetchSettled srt None ?cid out s2 = Some t"
    by (auto simp: run_append split: option.splits)
  have c2: "?cid < length (calls s2) \<and> calls s2 ! ?cid = calls s1 ! ?cid"
    by (rule run_frame[OF s2 assms(6) c1(1)])
  with t c1 show ?thesis
    by (auto simp: fetchSettled_def setCall_def Let_def)
qed


text \<open>
  A second invocation starts while the first one's refresh is pending; the refresh fails,
  and the second invocation's own request fails with a server error.
\<close>

theorem bystander_isolation_witness:
  "run tokenExpired
     [Invoke ''/api/data1'' ''{}'', FetchSettles 0 (Rejected ''Token expired''),
      Invoke ''/api/data2'' ''{}'', RefreshTokenSettles 0 (Some ''Refresh failed''), Resume 1,
      Resume 0, FetchSettles 1 (Rejected ''Server error'')]
     (init :: (string, string, string, string) state) =
   Some \<lparr>refreshingTokenPromise = None,
          refreshes = [\<lparr>invokedBy = 0, promiseState = RejectedWith ''Refresh failed''\<rparr>],
          calls = [\<lparr>url = ''/api/data1'', options = ''{}'',
                     point = Settled (Rejected ''Token expired''),
                     fetchCalls = [(''/api/data1'', ''{}'')],
                     shouldRefreshTokenCalls = [''Token expired'']\<rparr>,
                   \<lparr>url = ''/api/data2'', options = ''{}'',
                     point = Settled (Rejected ''Server error''),
                     fetchCalls = [(''/api/data2'', ''{}'')],
                     shouldRefreshTokenCalls = []\<rparr>]\<rparr>"
  (is "?run = Some ?t")
proof -
  let ?c0 = "\<lparr>url = ''/api/data1'', options = ''{}'',
                     point = AwaitRefresh 0 ''Token expired'',
                     fetchCalls = [(''/api/data1'', ''{}'')],
                     shouldRefreshTokenCalls = [''Token expired'']\<rparr>
        :: (string, string, string, string) call"
  let ?s = "\<lparr>refreshingTokenPromise = Some 0,
          refreshes = [\<lparr>invokedBy = 0, promiseState = Pending\<rparr>],
          calls = [?c0]\<rparr> :: (string, string, string, string) state"
  let ?s1 = "\<lparr>refreshingTokenPromise = None,
          refreshes = [\<lparr>invokedBy = 0, promiseState = RejectedWith ''Refresh failed''\<rparr>],
          calls = [?c0,
                   \<lparr>url = ''/api/data2'', options = ''{}'',
                     point = BystanderAwaitFetchCatch,
                     fetchCalls = [(''/api/data2'', ''{}'')],
                     shouldRefreshTokenCalls = []\<rparr>]\<rparr>
        :: (string, string, string, string) state"
  have h1: "refreshingTokenPromise ?s = Some 0" by simp
  have h2: "run tokenExpired (Invoke ''/api/data2'' ''{}'' #
      [RefreshTokenSettles 0 (Some ''Refresh failed'')] @ [Resume (length (calls ?s))]) ?s = Some ?s1"
    by (simp add: eval_defs)
  have h3: "\<forall>e\<in>set [RefreshTokenSettles 0 (Some ''Refresh failed'')
        :: (string, string, string, string) event].
      target e \<noteq> Some (length (calls ?s))"
    by simp
  have h4: "promiseState (refreshes ?s1 ! 0) = RejectedWith ''Refresh failed''" by simp
  have h5: "run tokenExpired ([Resume 0] @
      [FetchSettles (length (calls ?s)) (Rejected ''Server error'')]) ?s1 = Some ?t"
    by (simp add: eval_defs)
  have h6: "\<forall>e\<in>set [Resume 0 :: (string, string, string, string) event].
      target e \<noteq> Some (length (calls ?s))"
    by simp
  have c: "fetchCalls (calls ?s1 ! length (calls ?s)) = [(''/api/data2'', ''{}'')]"
    by (rule bystander_isolation[where srt = tokenExpired and s = ?s and p = 0
          and u = "''/api/data2''" and opts = "''{}''"
          and ?es1.0 = "[RefreshTokenSettles 0 (Some ''Refresh failed'')]" and ?s1.0 = ?s1
          and r = "''Refresh failed''" and ?es2.0 = "[Resume 0]"
          and out = "Rejected ''Server error''" and t = ?t,
          OF h1 h2 h3 h4 h5 h6, THEN conjunct1])
  have "?run = Some ?t" by (simp add: eval_defs)
  with c show ?thesis by blast
qed

section \<open>The pending handle\<close>

lemma step_handle_cases:
  assumes "step srt e s = Some t"
  shows "(length (refreshes t) = Suc (length (refreshes s)) \<and>
            refreshingTokenPromise s = None \<and>
            refreshingTokenPromise t = Some (length (refreshes s))) \<or>
         (length (refreshes t) = length (refreshes s) \<and>
            (refreshingTokenPromise t = refreshingTokenPromise s \<or>
             refreshingTokenPromise t = None))"
  using step_handle_effect[OF assms] by auto

lemma settle_clears_handle:
  assumes "handle_inv s" and "step srt (RefreshTokenSettles p r) s = Some t"
  shows "refreshingTokenPromise s = Some p \<and> refreshingTokenPromise t = None \<and>
         promiseState (refreshes t ! p) =
           (case r of None \<Rightarrow> Fulfilled | Some x \<Rightarrow> RejectedWith x)"
proof -
  from assms(2) have p: "p < length (refreshes s)" "promiseState (refreshes s ! p) = Pending"
    and t: "refreshingTokenPromise t = None"
      "refreshes t = (refreshes s)[p := (refreshes s ! p)
        \<lparr>promiseState := (case r of None \<Rightarrow> Fulfilled | Some x \<Rightarrow> RejectedWith x)\<rparr>]"
    by (auto simp: refreshTokenSettled_def split: if_splits)
  from assms(1) p have "refreshingTokenPromise s = Some p" unfolding handle_inv_def by blast
  with p t show ?thesis by simp
qed

lemma settle_enabled:
  assumes "p < length (refreshes s)" and "promiseState (refreshes s ! p) = Pending"
  shows "\<exists>t. step srt (RefreshTokenSettles p r) s = Some t"
  using assms by (simp add: refreshTokenSettled_def)

lemma resume_after_settlement:
  assumes "step srt (Resume cid) s = Some t" and "awaitedRefresh (calls s ! cid) = Some p"
  shows "p < length (refreshes s) \<and> promiseState (refreshes s ! p) \<noteq> Pending"
  using assms
  by (auto simp: resume_def Let_def split: if_splits point.splits promise_state.splits)

text \<open>
  What holds in every state the coordinator can reach, whatever \<^verbatim>\<open>refreshToken()\<close> does:
  \<^item> at most one promise made at line 37 is pending, and a pending promise is the one in
    the variable;
  \<^item> a step calls \<^verbatim>\<open>refreshToken()\<close> (it makes one more promise) only when the variable was
    \<^verbatim>\<open>null\<close>, and the same step stores the new promise;
  \<^item> while a promise is pending, the settlement of \<^verbatim>\<open>refreshToken()\<close>, either way, can
    happen, and it leaves the variable \<^verbatim>\<open>null\<close> and the promise settled accordingly;
  \<^item> an invocation resumes from \<^verbatim>\<open>await refreshingTokenPromise\<close> only in a state where
    the promise it awaited has settled.
  What does not hold is that the variable holds pending promises only: see below.
\<close>

lemma handle_invariant:
  assumes "run srt es init = Some s"
  shows "length (filter (\<lambda>r. promiseState r = Pending) (refreshes s)) \<le> 1 \<and>
         (\<forall>p < length (refreshes s).
            promiseState (refreshes s ! p) = Pending \<longrightarrow> refreshingTokenPromise s = Some p) \<and>
         (\<forall>p. refreshingTokenPromise s = Some p \<longrightarrow> p < length (refreshes s)) \<and>
         (\<forall>e t. step srt e s = Some t \<longrightarrow>
            (length (refreshes t) = Suc (length (refreshes s)) \<and>
               refreshingTokenPromise s = None \<and>
               refreshingTokenPromise t = Some (length (refreshes s))) \<or>
            (length (refreshes t) = length (refreshes s) \<and>
               (refreshingTokenPromise t = refreshingTokenPromise s \<or>
                refreshingTokenPromise t = None))) \<and>
         (\<forall>p r. p < length (refreshes s) \<and> promiseState (refreshes s ! p) = Pending \<longrightarrow>
            (\<exists>t. step srt (RefreshTokenSettles p r) s = Some t \<and>
               refreshingTokenPromise t = None \<and>
               promiseState (refreshes t ! p) =
                 (case r of None \<Rightarrow> Fulfilled | Some x \<Rightarrow> RejectedWith x))) \<and>
         (\<forall>cid p t. step srt (Resume cid) s = Some t \<longrightarrow>
            awaitedRefresh (calls s ! cid) = Some p \<longrightarrow>
            p < length (refreshes s) \<and> promiseState (refreshes s ! p) \<noteq> Pending)"
proof -
  have inv: "handle_inv s" by (rule handle_inv_run[OF assms handle_inv_init])
  then have two: "\<forall>p < length (refreshes s).
      promiseState (refreshes s ! p) = Pending \<longrightarrow> refreshingTokenPromise s = Some p"
    and three: "\<forall>p. refreshingTokenPromise s = Some p \<longrightarrow> p < length (refreshes s)"
    unfolding handle_inv_def by blast+
  have one: "length (filter (\<lambda>r. promiseState r = Pending) (refreshes s)) \<le> 1"
  proof (rule filter_at_most_one, intro allI impI)
    fix i j
    assume "i < length (refreshes s)" "j < length (refreshes s)"
      "promiseState (refreshes s ! i) = Pending" "promiseState (refreshes s ! j) = Pending"
    with two have "refreshingTokenPromise s = Some i" "refreshingTokenPromise s = Some j"
      by blast+
    then show "i = j" by simp
  qed
  have five: "\<exists>t. step srt (RefreshTokenSettles p r) s = Some t \<and>
      refreshingTokenPromise t = None \<and>
      promiseState (refreshes t ! p) = (case r of None \<Rightarrow> Fulfilled | Some x \<Rightarrow> RejectedWith x)"
    if "p < length (refreshes s)" "promiseState (refreshes s ! p) = Pending" for p r
  proof -
    from settle_enabled[OF that, of srt r] obtain t
      where t: "step srt (RefreshTokenSettles p r) s = Some t" ..
    from settle_clears_handle[OF inv t] t show ?thesis by blast
  qed
  show ?thesis
    using one two three step_handle_cases[of srt _ s] five resume_after_settlement[of srt _ s]
    by blast
qed

text \<open>
  Once the variable holds a settled promise and nothing is pending, it holds that promise
  in every later state, and \<^verbatim>\<open>refreshToken()\<close> is never called again.
\<close>

lemma handleStuck_step:
  assumes "step srt e s = Some t" and "handleStuck p s"
  shows "handleStuck p t \<and> length (refreshes t) = length (refreshes s)"
proof -
  from assms(2) have v: "refreshingTokenPromise s = Some p"
    and n: "\<And>q. q < length (refreshes s) \<Longrightarrow> promiseState (refreshes s ! q) \<noteq> Pending"
    unfolding handleStuck_def by blast+
  from step_handle_effect[OF assms(1)] v n
  have "refreshingTokenPromise t = refreshingTokenPromise s \<and> refreshes t = refreshes s"
    by auto
  with assms(2) show ?thesis by (simp add: handleStuck_def)
qed

lemma handleStuck_run:
  assumes "run srt es s = Some t" and "handleStuck p s"
  shows "refreshingTokenPromise t = Some p \<and> length (refreshes t) = length (refreshes s)"
proof -
  have "handleStuck p t \<and> length (refreshes t) = length (refreshes s)"
  proof (rule run_preserves[where Q = "\<lambda>e. True"
        and I = "\<lambda>x. handleStuck p x \<and> length (refreshes x) = length (refreshes s)",
        OF assms(1)])
    show "handleStuck p s \<and> length (refreshes s) = length (refreshes s)"
      using assms(2) by simp
    show "\<forall>e\<in>set es. True" by simp
    fix e x y
    assume "handleStuck p x \<and> length (refreshes x) = length (refreshes s)"
      "step srt e x = Some y"
    then show "handleStuck p y \<and> length (refreshes y) = length (refreshes s)"
      using handleStuck_step[of srt e x y p] by simp
  qed
  then show ?thesis by (simp add: handleStuck_def)
qed

text \<open>
  An invocation whose call of \<^verbatim>\<open>refreshToken()\<close> throws: it rejects with the error of its
  transport call, as after any failed refresh, and the variable still holds the promise.
\<close>

lemma rejected_stays_run:
  assumes "run srt es s = Some t" and "p < length (refreshes s)"
    and "promiseState (refreshes s ! p) = RejectedWith r"
  shows "p < length (refreshes t) \<and> promiseState (refreshes t ! p) = RejectedWith r"
proof (rule run_preserves[where Q = "\<lambda>e. True"
      and I = "\<lambda>x. p < length (refreshes x) \<and> promiseState (refreshes x ! p) = RejectedWith r",
      OF assms(1)])
  show "p < length (refreshes s) \<and> promiseState (refreshes s ! p) = RejectedWith r"
    using assms(2,3) by simp
  show "\<forall>e\<in>set es. True" by simp
  fix e x y
  assume "p < length (refreshes x) \<and> promiseState (refreshes x ! p) = RejectedWith r"
    "step srt e x = Some y"
  then show "p < length (refreshes y) \<and> promiseState (refreshes y ! p) = RejectedWith r"
    using rejected_stays[of srt e x y p r] by simp
qed

lemma refreshToken_throw:
  assumes "run srt es0 init = Some s"
    and "run srt (Invoke u opts # es1 @ [RefreshTokenThrows (length (calls s)) E x]) s = Some s1"
    and "\<forall>e\<in>set es1. target e \<noteq> Some (length (calls s))"
    and "run srt (es2 @ [Resume (length (calls s))]) s1 = Some t"
    and "\<forall>e\<in>set es2. target e \<noteq> Some (length (calls s))"
  shows "point (calls t ! length (calls s)) = Settled (Rejected E) \<and>
         fetchCalls (calls t ! length (calls s)) = [(u, opts)] \<and>
         refreshingTokenPromise s1 = Some (length (refreshes s1) - 1) \<and>
         refreshingTokenPromise t = refreshingTokenPromise s1 \<and>
         length (refreshes t) = length (refreshes s1)"
proof -
  let ?cid = "length (calls s)"
  let ?s0 = "invoke u opts s"
  from assms(2) obtain s' where s': "run srt es1 ?s0 = Some s'"
    and s1: "step srt (RefreshTokenThrows ?cid E x) s' = Some s1"
    by (auto simp: run_append split: option.splits)
  have r': "run srt (es0 @ Invoke u opts # es1) init = Some s'"
    using assms(1) s' by (simp add: run_append)
  have inv: "handle_inv s'" by (rule handle_inv_run[OF r' handle_inv_init])
  have "?cid < length (calls s') \<and> calls s' ! ?cid = calls ?s0 ! ?cid"
    by (rule run_frame[OF s' assms(3)]) (simp add: invoke_new_call)
  moreover from s1 have called: "callsRefreshToken srt ?cid E s'"
    by (simp split: if_splits)
  ultimately have c: "?cid < length (calls s')"
    "calls s' ! ?cid = \<lparr>url = u, options = opts, point = AwaitFetch,
        fetchCalls = [(u, opts)], shouldRefreshTokenCalls = []\<rparr>"
    by (auto simp: invoke_new_call callsRefreshToken_def split: option.splits)
  let ?p = "length (refreshes s')"
  from s1 called c have q: "?cid < length (calls s1)"
    "calls s1 ! ?cid = \<lparr>url = u, options = opts, point = AwaitRefresh ?p E,
        fetchCalls = [(u, opts)], shouldRefreshTokenCalls = [E]\<rparr>"
    and h1: "refreshingTokenPromise s1 = Some ?p"
      "refreshes s1 = refreshes s' @ [\<lparr>invokedBy = ?cid, promiseState = RejectedWith x\<rparr>]"
    by (auto simp: fetchSettled_def setCall_def callsRefreshToken_def Let_def)
  from called have n': "refreshingTokenPromise s' = None" by (simp add: callsRefreshToken_def)
  have nopending: "promiseState (refreshes s' ! i) \<noteq> Pending" if "i < length (refreshes s')" for i
    using inv that n' unfolding handle_inv_def by force
  have stuck: "handleStuck ?p s1"
    unfolding handleStuck_def using h1 nopending by (auto simp: nth_append less_Suc_eq)
  from assms(4) obtain s2 where s2: "run srt es2 s1 = Some s2"
    and t: "resume ?cid s2 = Some t"
    by (auto simp: run_append split: option.splits)
  have c2: "?cid < length (calls s2) \<and> calls s2 ! ?cid = calls s1 ! ?cid"
    by (rule run_frame[OF s2 assms(5) q(1)])
  have rej1: "?p < length (refreshes s1) \<and> promiseState (refreshes s1 ! ?p) = RejectedWith x"
    using h1 by simp
  have rej2: "?p < length (refreshes s2) \<and> promiseState (refreshes s2 ! ?p) = RejectedWith x"
    using rejected_stays_run[OF s2] rej1 by blast
  from t c2 q rej2 have res: "calls t ! ?cid = \<lparr>url = u, options = opts,
      point = Settled (Rejected E), fetchCalls = [(u, opts)], shouldRefreshTokenCalls = [E]\<rparr>"
    by (auto simp: resume_def setCall_def Let_def split: if_splits)
  have "run srt (es2 @ [Resume ?cid]) s1 = Some t" by (rule assms(4))
  from handleStuck_run[OF this stuck] h1 res show ?thesis by simp
qed

text \<open>
  Claim C2. The first transport call fails with \<^verbatim>\<open>'Token expired'\<close> and \<^verbatim>\<open>refreshToken()\<close>
  throws \<^verbatim>\<open>'No refresh token'\<close> instead of returning a promise. The promise of line 37 is
  stored already rejected, and neither callback of lines 39-46 exists to set the variable
  back to \<^verbatim>\<open>null\<close>: the first invocation resumes and rejects with the variable still set,
  and a later invocation finds it set, waits for the rejected promise, and has its own
  \<^verbatim>\<open>'Token expired'\<close> failure neither classified nor followed by a refresh.
\<close>

theorem refreshToken_throw_leaves_handle_set:
  "run tokenExpired
     [Invoke ''/api/data1'' ''{}'', RefreshTokenThrows 0 ''Token expired'' ''No refresh token'',
      Resume 0, Invoke ''/api/data2'' ''{}'', Resume 1,
      FetchSettles 1 (Rejected ''Token expired'')]
     (init :: (string, string, string, string) state) =
   Some \<lparr>refreshingTokenPromise = Some 0,
          refreshes = [\<lparr>invokedBy = 0, promiseState = RejectedWith ''No refresh token''\<rparr>],
          calls = [\<lparr>url = ''/api/data1'', options = ''{}'',
                     point = Settled (Rejected ''Token expired''),
                     fetchCalls = [(''/api/data1'', ''{}'')],
                     shouldRefreshTokenCalls = [''Token expired'']\<rparr>,
                   \<lparr>url = ''/api/data2'', options = ''{}'',
                     point = Settled (Rejected ''Token expired''),
                     fetchCalls = [(''/api/data2'', ''{}'')],
                     shouldRefreshTokenCalls = []\<rparr>]\<rparr>"
  by (simp add: eval_defs)

section \<open>Single flight\<close>













section \<open>When the refresh succeeds\<close>

text \<open>
  What an invocation does after a successful refresh: exactly one more transport call,
  with the arguments of the first; if it succeeds its value is returned; if it fails the
  invocation rejects with the error of the first call.
\<close>

lemma retry_after_refresh:
  assumes "refreshingTokenPromise s = None"
    and "srt E"
    and "run srt (Invoke u opts # es1 @ [FetchSettles (length (calls s)) (Rejected E)]) s = Some s1"
    and "\<forall>e\<in>set es1. target e \<noteq> Some (length (calls s))"
    and "run srt (es2 @ [Resume (length (calls s))]) s1 = Some s2"
    and "\<forall>e\<in>set es2. target e \<noteq> Some (length (calls s))"
    and "awaitedRefresh (calls s1 ! length (calls s)) = Some p"
    and "promiseState (refreshes s2 ! p) = Fulfilled"
    and "run srt (es3 @ [FetchSettles (length (calls s)) out]) s2 = Some t"
    and "\<forall>e\<in>set es3. target e \<noteq> Some (length (calls s))"
  shows "fetchCalls (calls s2 ! length (calls s)) = [(u, opts), (u, opts)] \<and>
         fetchCalls (calls t ! length (calls s)) = [(u, opts), (u, opts)] \<and>
         point (calls t ! length (calls s)) =
           Settled (case out of Resolved v \<Rightarrow> Resolved v | Rejected e2 \<Rightarrow> Rejected E)"
proof -
  let ?cid = "length (calls s)"
  let ?s0 = "invoke u opts s"
  from assms(3) obtain s' where s': "run srt es1 ?s0 = Some s'"
    and s1: "fetchSettled srt None ?cid (Rejected E) s' = Some s1"
    by (auto simp: run_append split: option.splits)
  have "?cid < length (calls s') \<and> calls s' ! ?cid = calls ?s0 ! ?cid"
    by (rule run_frame[OF s' assms(4)]) (simp add: invoke_new_call)
  then have c: "?cid < length (calls s')"
    "calls s' ! ?cid = \<lparr>url = u, options = opts, point = AwaitFetch,
        fetchCalls = [(u, opts)], shouldRefreshTokenCalls = []\<rparr>"
    using assms(1) by (simp_all add: invoke_new_call)
  from s1 c assms(2) obtain q where q: "?cid < length (calls s1)"
    "calls s1 ! ?cid = \<lparr>url = u, options = opts, point = AwaitRefresh q E,
        fetchCalls = [(u, opts)], shouldRefreshTokenCalls = [E]\<rparr>"
    by (auto simp: fetchSettled_def setCall_def Let_def split: option.splits)
  with assms(7) have qp: "q = p" by simp
  from assms(5) obtain x where x: "run srt es2 s1 = Some x"
    and s2: "resume ?cid x = Some s2"
    by (auto simp: run_append split: option.splits)
  have cx: "?cid < length (calls x) \<and> calls x ! ?cid = calls s1 ! ?cid"
    by (rule run_frame[OF x assms(6) q(1)])
  from s2 have "refreshes s2 = refreshes x"
    by (auto simp: resume_def setCall_def Let_def
             split: if_splits point.splits promise_state.splits)
  with assms(8) have "promiseState (refreshes x ! p) = Fulfilled" by simp
  with s2 cx q qp have c2: "?cid < length (calls s2)"
    "calls s2 ! ?cid = \<lparr>url = u, options = opts, point = AwaitRetry E,
        fetchCalls = [(u, opts), (u, opts)], shouldRefreshTokenCalls = [E]\<rparr>"
    by (auto simp: resume_def setCall_def issueFetch_def Let_def split: if_splits)
  from assms(9) obtain y where y: "run srt es3 s2 = Some y"
    and t: "fetchSettled srt None ?cid out y = Some t"
    by (auto simp: run_append split: option.splits)
  have cy: "?cid < length (calls y) \<and> calls y ! ?cid = calls s2 ! ?cid"
    by (rule run_frame[OF y assms(10) c2(1)])
  with t c2 show ?thesis
    by (cases out) (auto simp: fetchSettled_def setCall_def Let_def)
qed

text \<open>
  Claim C5. The transport fails with \<^verbatim>\<open>'Token expired'\<close>, the refresh succeeds, and the
  retry fails with \<^verbatim>\<open>'Server error'\<close>. There is one retry, with the arguments of the first
  call, and no third call; but the \<^verbatim>\<open>await\<close> of line 53 is inside the \<^verbatim>\<open>try\<close> of line 50,
  so the invocation rejects with the first error, not with the outcome of the retry.
\<close>

theorem retry_failure_rejects_with_original_error:
  "run tokenExpired
     [Invoke ''/api/data'' ''GET'', FetchSettles 0 (Rejected ''Token expired''),
      RefreshTokenSettles 0 None, Resume 0, FetchSettles 0 (Rejected ''Server error'')]
     (init :: (string, string, string, string) state) =
   Some \<lparr>refreshingTokenPromise = None,
          refreshes = [\<lparr>invokedBy = 0, promiseState = Fulfilled\<rparr>],
          calls = [\<lparr>url = ''/api/data'', options = ''GET'',
                     point = Settled (Rejected ''Token expired''),
                     fetchCalls = [(''/api/data'', ''GET''), (''/api/data'', ''GET'')],
                     shouldRefreshTokenCalls = [''Token expired'']\<rparr>]\<rparr>"
  by (simp add: eval_defs)

section \<open>Invocations that find a refresh in progress\<close>

text \<open>
  An invocation that begins while a refresh is pending never calls \<^verbatim>\<open>shouldRefreshToken\<close>,
  whatever happens afterwards.
\<close>

lemma step_bystanderCall:
  assumes "step srt e s = Some t"
    and "cid < length (calls s) \<and> bystanderCall (calls s ! cid)"
  shows "cid < length (calls t) \<and> bystanderCall (calls t ! cid)"
proof (cases "target e = Some cid")
  case False
  then show ?thesis using step_frame[OF assms(1) False] assms(2) by simp
next
  case True
  then consider out where "e = FetchSettles cid out"
    | error x where "e = RefreshTokenThrows cid error x" | "e = Resume cid"
    by (cases e) auto
  then show ?thesis
  proof cases
    case 1
    then show ?thesis using assms
      by (auto simp: fetchSettled_def setCall_def issueFetch_def bystanderCall_def Let_def
               split: if_splits point.splits outcome.splits)
  next
    case 2
    then show ?thesis using assms
      by (auto simp: callsRefreshToken_def bystanderCall_def split: if_splits)
  next
    case 3
    then show ?thesis using assms
      by (auto simp: resume_def setCall_def issueFetch_def bystanderCall_def Let_def
               split: if_splits point.splits promise_state.splits)
  qed
qed

lemma bystander_never_classifies:
  assumes "refreshingTokenPromise s = Some p" and "run srt (Invoke u opts # es) s = Some t"
  shows "shouldRefreshTokenCalls (calls t ! length (calls s)) = []"
proof -
  let ?cid = "length (calls s)"
  from assms(2) have r: "run srt es (invoke u opts s) = Some t" by simp
  have "?cid < length (calls t) \<and> bystanderCall (calls t ! ?cid)"
  proof (rule run_preserves[where Q = "\<lambda>e. True"
        and I = "\<lambda>x. ?cid < length (calls x) \<and> bystanderCall (calls x ! ?cid)", OF r])
    show "?cid < length (calls (invoke u opts s)) \<and>
        bystanderCall (calls (invoke u opts s) ! ?cid)"
      using assms(1) by (simp add: invoke_new_call bystanderCall_def)
    show "\<forall>e\<in>set es. True" by simp
    fix e x y
    assume "?cid < length (calls x) \<and> bystanderCall (calls x ! ?cid)" "step srt e x = Some y"
    then show "?cid < length (calls y) \<and> bystanderCall (calls y ! ?cid)"
      using step_bystanderCall[of srt e x y ?cid] by simp
  qed
  then show ?thesis by (simp add: bystanderCall_def)
qed

text \<open>
  Claim C8. A second invocation starts while a refresh is pending; the refresh succeeds,
  the invocation's transport call fails with \<^verbatim>\<open>'Server error'\<close>, and the call that the
  \<^verbatim>\<open>catch\<close> of line 23 then makes succeeds. \<^verbatim>\<open>shouldRefreshToken\<close> is never called by this
  invocation; but its transport failure does not propagate: the transport is called a
  second time and the invocation resolves.
\<close>

theorem bystander_failure_after_refresh_is_retried:
  "run tokenExpired
     [Invoke ''/api/data1'' ''{}'', FetchSettles 0 (Rejected ''Token expired''),
      Invoke ''/api/data2'' ''{}'', RefreshTokenSettles 0 None, Resume 1,
      FetchSettles 1 (Rejected ''Server error''), FetchSettles 1 (Resolved ''success'')]
     (init :: (string, string, string, string) state) =
   Some \<lparr>refreshingTokenPromise = None,
          refreshes = [\<lparr>invokedBy = 0, promiseState = Fulfilled\<rparr>],
          calls = [\<lparr>url = ''/api/data1'', options = ''{}'',
                     point = AwaitRefresh 0 ''Token expired'',
                     fetchCalls = [(''/api/data1'', ''{}'')],
                     shouldRefreshTokenCalls = [''Token expired'']\<rparr>,
                   \<lparr>url = ''/api/data2'', options = ''{}'',
                     point = Settled (Resolved ''success''),
                     fetchCalls = [(''/api/data2'', ''{}''), (''/api/data2'', ''{}'')],
                     shouldRefreshTokenCalls = []\<rparr>]\<rparr>"
  by (simp add: eval_defs)

section \<open>fetchJSON: the options handed to fetch\<close>

lemmas json_defs = fetchJSON_def fetchOptions_def property_def getResponseBody_def isJSON_def
  tryParseJSON_def checkStatus_def parsesOnly_def respondWith_def










section \<open>fetchJSON: the status check\<close>

text \<open>
  Claim C10, as the code has it. Let \<^verbatim>\<open>fetch\<close> resolve with a response \<open>r\<close>. A
  \<open>ResponseError\<close> is thrown only when \<^verbatim>\<open>r.ok\<close> is false, and it carries the status, the
  response and the body. When the body is extracted without error (the content type is
  not JSON, or the text is empty, or \<^verbatim>\<open>JSON.parse\<close> accepts it), \<^verbatim>\<open>fetchJSON\<close> returns
  \<^verbatim>\<open>{response, body}\<close> if \<^verbatim>\<open>r.ok\<close> and rejects with that \<open>ResponseError\<close> if not; the empty
  text of a JSON response gives the body \<^verbatim>\<open>null\<close>. When the text of a JSON response is not
  empty and does not parse, \<^verbatim>\<open>fetchJSON\<close> rejects with the error of line 65, whatever
  \<^verbatim>\<open>r.ok\<close> is.
\<close>

theorem fetchJSON_status:
  fixes fetch :: "'u \<Rightarrow> 'a jsobject \<Rightarrow> 'x + response" and parse :: "string \<Rightarrow> 'j option"
  assumes "fetch u (fetchOptions opts) = Inr r"
  shows "(\<forall>st r' b. snd (fetchJSON parse fetch u opts) = Inl (ResponseError st r' b) \<longrightarrow>
            \<not> ok r \<and> st = status r \<and> r' = r \<and>
            getResponseBody parse r = (Inr b :: ('x, 'j) fetchJSON_error + 'j body)) \<and>
         (\<forall>b. getResponseBody parse r = (Inr b :: ('x, 'j) fetchJSON_error + 'j body) \<longrightarrow>
            snd (fetchJSON parse fetch u opts) =
              (if ok r then Inr (r, b) else Inl (ResponseError (status r) r b))) \<and>
         (isJSON r \<and> responseText r = [] \<longrightarrow>
            getResponseBody parse r = (Inr BodyNull :: ('x, 'j) fetchJSON_error + 'j body)) \<and>
         (isJSON r \<and> responseText r \<noteq> [] \<and> parse (responseText r) = None \<longrightarrow>
            snd (fetchJSON parse fetch u opts) =
              Inl (ParseError (''Failed to parse unexpected JSON response: '' @ responseText r))) \<and>
         ((\<exists>b. getResponseBody parse r = (Inr b :: ('x, 'j) fetchJSON_error + 'j body)) =
            (\<not> isJSON r \<or> responseText r = [] \<or> parse (responseText r) \<noteq> None))"
  using assms
  by (auto simp: fetchJSON_def getResponseBody_def tryParseJSON_def checkStatus_def
           split: sum.splits option.splits if_splits)

text \<open>
  The test \<^emph>\<open>should throw ResponseError for non-ok responses\<close>, with the body \<^verbatim>\<open>{}\<close>.
\<close>

theorem fetchJSON_status_witness:
  "snd (fetchJSON (parsesOnly ''{}'' ())
     (respondWith \<lparr>ok = False, status = 404, contentType = Some ''application/json'',
                   responseText = ''{}''\<rparr>
        :: string \<Rightarrow> unit jsobject \<Rightarrow> unit + response)
     ''/api/notfound'' []) =
   Inl (ResponseError 404
     \<lparr>ok = False, status = 404, contentType = Some ''application/json'', responseText = ''{}''\<rparr>
     (BodyJSON ()))"
  (is "snd (fetchJSON ?parse ?fetch ?u ?opts) = Inl (ResponseError 404 ?r ?b)")
proof -
  have h: "?fetch ?u (fetchOptions ?opts) = Inr ?r" by (simp add: respondWith_def)
  have b: "getResponseBody ?parse ?r = (Inr ?b :: (unit, unit) fetchJSON_error + unit body)"
    by (simp add: json_defs)
  from fetchJSON_status[where parse = ?parse and fetch = ?fetch and u = ?u
      and opts = ?opts and r = ?r, OF h, THEN conjunct2, THEN conjunct1, rule_format, OF b]
  show ?thesis by simp
qed

text \<open>
  The claim as stated has \<^verbatim>\<open>fetchJSON\<close> reject with a \<open>ResponseError\<close> whenever \<^verbatim>\<open>r.ok\<close> is
  false. The response of the test \<^emph>\<open>should throw descriptive error for invalid JSON\<close>, with
  \<^verbatim>\<open>ok: false\<close>: the rejection is the parse error.
\<close>

theorem fetchJSON_status_counterexample:
  "snd (fetchJSON (parsesOnly ''{}'' ())
     (respondWith \<lparr>ok = False, status = 500, contentType = Some ''application/json'',
                   responseText = ''{ invalid json }''\<rparr>
        :: string \<Rightarrow> unit jsobject \<Rightarrow> unit + response)
     ''/api/invalid'' []) =
   Inl (ParseError ''Failed to parse unexpected JSON response: { invalid json }'')"
  by (simp add: json_defs)

end
